theory Spec2Isabelle
  imports Main "HOL-Library.Word" "HOL-Library.Sublist"
begin

unbundle bit_operations_syntax

section \<open>Identifiers and the program listing\<close>

text \<open>
  Program identifiers are Python strings; they are modelled as \<open>string\<close>. The form
  value of a request may be absent (\<open>request.form.get\<close> returns \<open>None\<close>), hence the
  \<open>string option\<close> argument of \<open>safe_program_name\<close>.
\<close>

text \<open>
  \<open>os.path.basename\<close> on a POSIX host: everything after the last \<open>/\<close>
  (\<open>i = p.rfind('/') + 1; return p[i:]\<close>).
\<close>

definition basename :: "string \<Rightarrow> string" where
  "basename p = rev (takeWhile (\<lambda>c. c \<noteq> CHR ''/'') (rev p))"

definition endswith :: "string \<Rightarrow> string \<Rightarrow> bool" where
  "endswith s suf = suffix suf s"

text \<open>
  \<^verbatim>\<open>
  def safe_program_name(name):
      if not name: return None
      name = os.path.basename(name)
      if name.endswith(".py"): name = name[:-3]
      if "/" in name or "\\" in name: return None
      return name
  \<close>
\<close>

definition safe_program_name :: "string option \<Rightarrow> string option" where
  "safe_program_name name =
     (case name of
        None \<Rightarrow> None
      | Some n \<Rightarrow>
          if n = [] then None
          else
            let b = basename n;
                b' = (if endswith b ''.py'' then take (length b - 3) b else b)
            in if CHR ''/'' \<in> set b' \<or> CHR 0x5C \<in> set b' then None else Some b')"

text \<open>
  The table \<open>runnable_blocks\<close> is owned by another component; only the columns the
  queries read are modelled. The column type of \<open>block_index\<close> is not fixed by this
  repository, so it is a type parameter with a linear order (\<open>ORDER BY ... ASC\<close>) and the
  conversion \<open>str\<close> is a parameter of \<open>get_programs\<close>.
\<close>

record 'k runnable_block =
  block_index :: 'k
  cleaned_content :: "string option"
  created_at :: nat

text \<open>
  \<open>SELECT DISTINCT block_index FROM runnable_blocks ORDER BY block_index ASC\<close>, then
  \<open>[str(r[0]) for r in rows]\<close>.
\<close>

definition get_programs :: "('k::linorder \<Rightarrow> string) \<Rightarrow> 'k runnable_block list \<Rightarrow> string list" where
  "get_programs str rows = map str (sort (remdups (map block_index rows)))"

text \<open>
  The selection made by \<open>index\<close> (the value of \<open>selected_program\<close>):
  \<^verbatim>\<open>
  selected = safe_program_name(request.args.get("program"))
  if not programs: selected_program = None
  else:
      if selected not in programs: selected_program = programs[0] if programs else None
      else: selected_program = selected
  \<close>
\<close>

definition index_selected :: "string list \<Rightarrow> string option \<Rightarrow> string option" where
  "index_selected programs arg =
     (let selected = safe_program_name arg in
      case programs of
        [] \<Rightarrow> None
      | p0 # _ \<Rightarrow>
          (case selected of
             None \<Rightarrow> Some p0
           | Some s \<Rightarrow> if s \<notin> set programs then Some p0 else Some s))"

section \<open>Decoding captured bytes\<close>

text \<open>
  Captured output is decoded to Python text, a sequence of Unicode code points; a code
  point is a \<open>nat\<close>. \<open>ustr\<close> embeds the literals of the source.
\<close>

type_synonym byte = "8 word"
type_synonym pytext = "nat list"

definition ustr :: "string \<Rightarrow> pytext" where
  "ustr s = map of_char s"

definition REPLACEMENT :: nat where
  "REPLACEMENT = 0xFFFD"

definition is_cont :: "byte \<Rightarrow> bool" where
  "is_cont b = (0x80 \<le> b \<and> b \<le> 0xBF)"

text \<open>
  One step of the UTF-8 codec that \<open>line.decode("utf-8", ...)\<close> calls, on the lead byte
  \<open>b0\<close> and the bytes after it. The result is the decoded code point, or \<open>None\<close> at a
  malformed sequence, and the number of bytes the step covers: the length of the character,
  or the extent of the error (invalid start byte: 1; invalid continuation byte: the bytes
  before it; unexpected end of data: up to the end).
\<close>

definition utf8_decode_one :: "byte \<Rightarrow> byte list \<Rightarrow> nat option \<times> nat" where
  "utf8_decode_one b0 rest =
     (if b0 < 0x80 then (Some (unat b0), 1)
      else if b0 < 0xC2 then (None, 1)
      else if b0 < 0xE0 then
        (case rest of
           [] \<Rightarrow> (None, 1)
         | b1 # _ \<Rightarrow>
             if \<not> is_cont b1 then (None, 1)
             else (Some (unat (b0 AND 0x1F) * 64 + unat (b1 AND 0x3F)), 2))
      else if b0 < 0xF0 then
        (case rest of
           [] \<Rightarrow> (None, 1)
         | b1 # r1 \<Rightarrow>
             if \<not> is_cont b1 \<or> (if b1 < 0xA0 then b0 = 0xE0 else b0 = 0xED) then (None, 1)
             else
               (case r1 of
                  [] \<Rightarrow> (None, 2)
                | b2 # _ \<Rightarrow>
                    if \<not> is_cont b2 then (None, 2)
                    else (Some (unat (b0 AND 0x0F) * 4096 + unat (b1 AND 0x3F) * 64
                                + unat (b2 AND 0x3F)), 3)))
      else if b0 < 0xF5 then
        (case rest of
           [] \<Rightarrow> (None, 1)
         | b1 # r1 \<Rightarrow>
             if \<not> is_cont b1 \<or> (if b1 < 0x90 then b0 = 0xF0 else b0 = 0xF4) then (None, 1)
             else
               (case r1 of
                  [] \<Rightarrow> (None, 2)
                | b2 # r2 \<Rightarrow>
                    if \<not> is_cont b2 then (None, 2)
                    else
                      (case r2 of
                         [] \<Rightarrow> (None, 3)
                       | b3 # _ \<Rightarrow>
                           if \<not> is_cont b3 then (None, 3)
                           else (Some (unat (b0 AND 0x07) * 262144 + unat (b1 AND 0x3F) * 4096
                                       + unat (b2 AND 0x3F) * 64 + unat (b3 AND 0x3F)), 4))))
      else (None, 1))"

text \<open>
  The error handler named by the \<open>errors\<close> argument: \<open>strict\<close> raises
  \<open>UnicodeDecodeError\<close>, \<open>replace\<close> puts U+FFFD for the malformed bytes and resumes
  after them. The pump passes \<open>errors="replace"\<close>.
\<close>

datatype errors = Strict | Replace

datatype exn = UnicodeDecodeError | OtherException

fun decode :: "errors \<Rightarrow> byte list \<Rightarrow> exn + pytext" where
  "decode h [] = Inr []"
| "decode h (b # bs) =
     (case utf8_decode_one b bs of
        (Some c, k) \<Rightarrow>
          (case decode h (drop (k - 1) bs) of Inl e \<Rightarrow> Inl e | Inr t \<Rightarrow> Inr (c # t))
      | (None, k) \<Rightarrow>
          (case h of
             Strict \<Rightarrow> Inl UnicodeDecodeError
           | Replace \<Rightarrow>
               (case decode h (drop (k - 1) bs) of Inl e \<Rightarrow> Inl e | Inr t \<Rightarrow> Inr (REPLACEMENT # t))))"

section \<open>Reactions\<close>

text \<open>
  The table \<open>program_reactions\<close>: \<open>program TEXT PRIMARY KEY\<close>, so a map from the
  program to its row; \<open>likes\<close> and \<open>dislikes\<close> are \<open>INTEGER NOT NULL\<close> columns, four-byte
  signed integers whose arithmetic fails with "integer out of range" instead of wrapping.
\<close>

record reaction =
  likes :: int
  dislikes :: int

type_synonym program_reactions = "string \<rightharpoonup> reaction"

datatype db_error = NumericValueOutOfRange

definition INT_MAX :: int where
  "INT_MAX = 2147483647"

text \<open>\<open>program_reactions.likes + 1\<close> on an \<open>INTEGER\<close> column.\<close>

definition int4_succ :: "int \<Rightarrow> db_error + int" where
  "int4_succ n = (if n + 1 > INT_MAX then Inl NumericValueOutOfRange else Inr (n + 1))"

text \<open>
  \<open>SELECT likes, dislikes FROM program_reactions WHERE program = %s\<close>; \<open>(0, 0)\<close> when
  there is no row.
\<close>

definition get_reactions :: "program_reactions \<Rightarrow> string \<Rightarrow> int \<times> int" where
  "get_reactions db program =
     (case db program of None \<Rightarrow> (0, 0) | Some row \<Rightarrow> (likes row, dislikes row))"

text \<open>
  \<open>INSERT INTO program_reactions (program, likes, dislikes) VALUES (%s, 1, 0)
  ON CONFLICT (program) DO UPDATE SET likes = program_reactions.likes + 1\<close>. A failing
  statement raises in the caller and leaves the table as it was.
\<close>

definition increment_like :: "string \<Rightarrow> program_reactions \<Rightarrow> db_error + program_reactions" where
  "increment_like program db =
     (case db program of
        None \<Rightarrow> Inr (db(program \<mapsto> \<lparr>likes = 1, dislikes = 0\<rparr>))
      | Some row \<Rightarrow>
          (case int4_succ (likes row) of
             Inl e \<Rightarrow> Inl e
           | Inr n \<Rightarrow> Inr (db(program \<mapsto> row\<lparr>likes := n\<rparr>))))"

text \<open>
  \<open>INSERT ... VALUES (%s, 0, 1) ON CONFLICT (program) DO UPDATE SET dislikes =
  program_reactions.dislikes + 1\<close>.
\<close>

definition increment_dislike :: "string \<Rightarrow> program_reactions \<Rightarrow> db_error + program_reactions" where
  "increment_dislike program db =
     (case db program of
        None \<Rightarrow> Inr (db(program \<mapsto> \<lparr>likes = 0, dislikes = 1\<rparr>))
      | Some row \<Rightarrow>
          (case int4_succ (dislikes row) of
             Inl e \<Rightarrow> Inl e
           | Inr n \<Rightarrow> Inr (db(program \<mapsto> row\<lparr>dislikes := n\<rparr>))))"

section \<open>The execution engine\<close>

text \<open>
  The module-level tables \<open>running_processes\<close>, \<open>output_queues\<close> and \<open>last_output\<close>
  are shared by the request handlers, the pump threads and the stream generators. A
  \<open>Queue\<close> is an object: \<open>output_queues\<close> and every pump and generator hold its address, and
  \<open>queues\<close> is the store from addresses to contents. A process handle is the number of
  the process. The values of \<open>last_output\<close> are immutable strings, held by key.

  The threads interleave. One step of the model is one statement of a thread; \<open>trace\<close>
  records, in order, what the steps did to the outside world and to the shared objects,
  and each call of \<open>safe_program_name\<close> with its argument.
\<close>

datatype stream = Stdout | Stderr

record pump_t =
  pump_pipe :: "nat \<times> stream"
  pump_q :: nat
  pump_prog :: string
  pump_decoded :: "pytext option"
  pump_closed :: bool

record viewer =
  viewer_q :: "nat option"
  viewer_out :: "pytext list"

datatype event =
    Normalise "string option"
  | GetPrograms
  | GetCode string
  | Kill nat
  | Popen nat
  | Store string nat
  | Put nat nat pytext
  | Append nat string pytext
  | Get nat nat pytext

record state =
  running_processes :: "string \<rightharpoonup> nat"
  output_queues :: "string \<rightharpoonup> nat"
  last_output :: "string \<rightharpoonup> pytext"
  queues :: "nat \<Rightarrow> pytext list"
  next_queue :: nat
  next_pid :: nat
  pumps :: "pump_t list"
  viewers :: "viewer list"
  trace :: "event list"

definition init :: state where
  "init = \<lparr>running_processes = Map.empty, output_queues = Map.empty, last_output = Map.empty,
            queues = (\<lambda>_. []), next_queue = 0, next_pid = 0, pumps = [], viewers = [],
            trace = []\<rparr>"

text \<open>
  What the collaborators answer during one \<open>POST /run\<close>: the listing of
  \<open>get_programs()\<close>, the result of \<open>get_program_code(program)\<close>, whether \<open>kill()\<close> on
  the previous handle raises, and whether \<open>subprocess.Popen\<close> raises.
\<close>

record run_env =
  programs :: "string list"
  code_text :: "string option"
  kill_raises :: bool
  popen_raises :: bool

datatype response = Redirect "string option" | InternalServerError

text \<open>\<open>running_processes[program].kill()\<close>: the request is made, and may raise.\<close>

definition kill :: "run_env \<Rightarrow> nat \<Rightarrow> state \<Rightarrow> state \<times> (exn + unit)" where
  "kill env h s =
     (s\<lparr>trace := trace s @ [Kill h]\<rparr>, if kill_raises env then Inl OtherException else Inr ())"

text \<open>\<open>last_output\<close> is a \<open>defaultdict(str)\<close>: a missing key reads as the empty string.\<close>

definition last_output_get :: "state \<Rightarrow> string \<Rightarrow> pytext" where
  "last_output_get s program = (case last_output s program of None \<Rightarrow> [] | Some t \<Rightarrow> t)"

definition new_pump :: "nat \<Rightarrow> stream \<Rightarrow> nat \<Rightarrow> string \<Rightarrow> pump_t" where
  "new_pump pid st qa program =
     \<lparr>pump_pipe = (pid, st), pump_q = qa, pump_prog = program, pump_decoded = None,
      pump_closed = False\<rparr>"

text \<open>
  The handler of \<open>POST /run\<close>, in the order of its statements: normalise, list, validate;
  kill the previous instance inside \<open>try ... except Exception: pass\<close>; store a fresh queue
  and reset the displayed output; fetch the code and return if there is none; start the
  child, store its handle, start the two pumps with \<open>(pipe, q, program)\<close>. An exception of
  \<open>Popen\<close> is not caught.
\<close>

definition run_program :: "run_env \<Rightarrow> string option \<Rightarrow> state \<Rightarrow> response \<times> state" where
  "run_program env form s =
     (let program = safe_program_name form;
          s0 = s\<lparr>trace := trace s @ [Normalise form, GetPrograms]\<rparr>
      in case program of
           None \<Rightarrow> (Redirect program, s0)
         | Some p \<Rightarrow>
             if p = [] \<or> p \<notin> set (programs env) then (Redirect program, s0)
             else
               let s1 = (case running_processes s0 p of
                           None \<Rightarrow> s0
                         | Some h \<Rightarrow>
                             (case kill env h s0 of
                                (s', Inl e) \<Rightarrow> s'
                              | (s', Inr u) \<Rightarrow> s'));
                   qa = next_queue s1;
                   s2 = s1\<lparr>queues := (queues s1)(qa := []), next_queue := Suc qa,
                          output_queues := (output_queues s1)(p \<mapsto> qa),
                          last_output := (last_output s1)(p \<mapsto> [])\<rparr>;
                   s3 = s2\<lparr>trace := trace s2 @ [GetCode p]\<rparr>
               in case code_text env of
                    None \<Rightarrow> (Redirect program, s3)
                  | Some code \<Rightarrow>
                      if popen_raises env then (InternalServerError, s3)
                      else
                        let pid = next_pid s3;
                            s4 = s3\<lparr>next_pid := Suc pid,
                                   running_processes := (running_processes s3)(p \<mapsto> pid),
                                   pumps := pumps s3 @ [new_pump pid Stdout qa p,
                                                        new_pump pid Stderr qa p],
                                   trace := trace s3 @ [Popen pid, Store p pid]\<rparr>
                        in (Redirect program, s4))"

text \<open>
  The steps of the threads. \<open>PostRun\<close> is a whole \<open>POST /run\<close>; \<open>GetStream\<close> is the arrival
  of a \<open>GET /stream/<program>\<close>, which binds \<open>q = output_queues.get(program)\<close> once and
  yields the first directive.

  A pump, \<open>pump(pipe, q_, prog)\<close>:
  \<^verbatim>\<open>
  for line in iter(pipe.readline, b""):
      try:
          decoded = line.decode("utf-8", errors="replace")
          q_.put(decoded)
          last_output[prog] += decoded
      except Exception:
          pass
  pipe.close()
  \<close>
  \<open>PumpRead i line\<close>: \<open>readline\<close> gave pump \<open>i\<close> the non-empty \<open>line\<close>, which is decoded and
  put on the queue \<open>q_\<close> the pump was started with. \<open>PumpAppend i\<close>: the pump appends the
  chunk to \<open>last_output[prog]\<close>, looked up by key at this moment; the read and the write
  of \<open>+=\<close> are taken as one step. \<open>PumpEof i\<close>: \<open>readline\<close> gave \<open>b""\<close>, the loop ends.

  A generator, \<open>event_stream()\<close>:
  \<^verbatim>\<open>
  yield "retry: 200\n\n"
  while True:
      if q is None: time.sleep(0.1); continue
      while not q.empty():
          line = q.get()
          yield f"data: {line}\n\n"
      time.sleep(0.1)
  \<close>
  \<open>ViewerPoll j\<close>: generator \<open>j\<close> tests its queue once; it takes and frames the first
  chunk, or sleeps when \<open>q\<close> is \<open>None\<close> or empty. The test \<open>q.empty()\<close> and the
  \<open>q.get()\<close> after it are taken as one step.

  A label that is not enabled (no such thread, a closed pump, an append with nothing
  decoded) leaves the state as it is.
\<close>

datatype label =
    PostRun "string option" run_env
  | PumpRead nat "byte list"
  | PumpAppend nat
  | PumpEof nat
  | GetStream string
  | ViewerPoll nat

definition frame :: "pytext \<Rightarrow> pytext" where
  "frame line = ustr ''data: '' @ line @ ustr ''\<newline>\<newline>''"

definition RETRY :: pytext where
  "RETRY = ustr ''retry: 200\<newline>\<newline>''"

definition pump_read :: "nat \<Rightarrow> byte list \<Rightarrow> state \<Rightarrow> state" where
  "pump_read i line s =
     (if i < length (pumps s) then
        let pm = pumps s ! i in
        if pump_closed pm \<or> pump_decoded pm \<noteq> None \<or> line = [] then s
        else
          (case decode Replace line of
             Inl e \<Rightarrow> s
           | Inr d \<Rightarrow>
               s\<lparr>queues := (queues s)(pump_q pm := queues s (pump_q pm) @ [d]),
                 pumps := (pumps s)[i := pm\<lparr>pump_decoded := Some d\<rparr>],
                 trace := trace s @ [Put i (pump_q pm) d]\<rparr>)
      else s)"

definition pump_append :: "nat \<Rightarrow> state \<Rightarrow> state" where
  "pump_append i s =
     (if i < length (pumps s) then
        let pm = pumps s ! i in
        case pump_decoded pm of
          None \<Rightarrow> s
        | Some d \<Rightarrow>
            s\<lparr>last_output := (last_output s)(pump_prog pm \<mapsto> last_output_get s (pump_prog pm) @ d),
              pumps := (pumps s)[i := pm\<lparr>pump_decoded := None\<rparr>],
              trace := trace s @ [Append i (pump_prog pm) d]\<rparr>
      else s)"

definition pump_eof :: "nat \<Rightarrow> state \<Rightarrow> state" where
  "pump_eof i s =
     (if i < length (pumps s) then
        let pm = pumps s ! i in
        if pump_closed pm \<or> pump_decoded pm \<noteq> None then s
        else s\<lparr>pumps := (pumps s)[i := pm\<lparr>pump_closed := True\<rparr>]\<rparr>
      else s)"

definition stream_program :: "string \<Rightarrow> state \<Rightarrow> state" where
  "stream_program name s =
     (let program = safe_program_name (Some name);
          q = (case program of None \<Rightarrow> None | Some p \<Rightarrow> output_queues s p)
      in s\<lparr>viewers := viewers s @ [\<lparr>viewer_q = q, viewer_out = [RETRY]\<rparr>],
           trace := trace s @ [Normalise (Some name)]\<rparr>)"

definition viewer_poll :: "nat \<Rightarrow> state \<Rightarrow> state" where
  "viewer_poll j s =
     (if j < length (viewers s) then
        let v = viewers s ! j in
        case viewer_q v of
          None \<Rightarrow> s
        | Some qa \<Rightarrow>
            (case queues s qa of
               [] \<Rightarrow> s
             | line # rest \<Rightarrow>
                 s\<lparr>queues := (queues s)(qa := rest),
                   viewers := (viewers s)[j := v\<lparr>viewer_out := viewer_out v @ [frame line]\<rparr>],
                   trace := trace s @ [Get j qa line]\<rparr>)
      else s)"

fun step :: "label \<Rightarrow> state \<Rightarrow> state" where
  "step (PostRun form env) s = snd (run_program env form s)"
| "step (PumpRead i line) s = pump_read i line s"
| "step (PumpAppend i) s = pump_append i s"
| "step (PumpEof i) s = pump_eof i s"
| "step (GetStream name) s = stream_program name s"
| "step (ViewerPoll j) s = viewer_poll j s"

text \<open>A schedule is the list of the steps taken, in order.\<close>

definition exec :: "label list \<Rightarrow> state \<Rightarrow> state" where
  "exec ls s = foldl (\<lambda>s l. step l s) s ls"

text \<open>The chunks one pump put on its queue, and the chunks it appended, in order.\<close>

fun offered :: "nat \<Rightarrow> event list \<Rightarrow> pytext list" where
  "offered i [] = []"
| "offered i (Put j qa d # es) = (if j = i then d # offered i es else offered i es)"
| "offered i (_ # es) = offered i es"

fun appended :: "nat \<Rightarrow> event list \<Rightarrow> pytext list" where
  "appended i [] = []"
| "appended i (Append j p d # es) = (if j = i then d # appended i es else appended i es)"
| "appended i (_ # es) = appended i es"

text \<open>The chunks one generator took from its queue, in order.\<close>

fun taken :: "nat \<Rightarrow> event list \<Rightarrow> pytext list" where
  "taken j [] = []"
| "taken j (Get k qa d # es) = (if k = j then d # taken j es else taken j es)"
| "taken j (_ # es) = taken j es"

text \<open>The chunks put on one queue, and the chunks taken from it, in order.\<close>

fun put_on :: "nat \<Rightarrow> event list \<Rightarrow> pytext list" where
  "put_on qa [] = []"
| "put_on qa (Put i qb d # es) = (if qb = qa then d # put_on qa es else put_on qa es)"
| "put_on qa (_ # es) = put_on qa es"

fun got_from :: "nat \<Rightarrow> event list \<Rightarrow> pytext list" where
  "got_from qa [] = []"
| "got_from qa (Get j qb d # es) = (if qb = qa then d # got_from qa es else got_from qa es)"
| "got_from qa (_ # es) = got_from qa es"

text \<open>
  The chunk a pump holds between \<open>q_.put(decoded)\<close> and \<open>last_output[prog] += decoded\<close>.
\<close>

definition pending :: "nat \<Rightarrow> state \<Rightarrow> pytext list" where
  "pending i s =
     (if i < length (pumps s) then
        (case pump_decoded (pumps s ! i) of None \<Rightarrow> [] | Some d \<Rightarrow> [d])
      else [])"

section \<open>Scenarios\<close>

text \<open>
  Concrete answers of the collaborators and concrete output lines, for the worked runs
  below: a listing that holds the program \<open>"7"\<close>, with and without stored code, and the
  lines \<open>b"a\n"\<close>, \<open>b"b\n"\<close>, \<open>b"c\n"\<close>.
\<close>

definition env_found :: run_env where
  "env_found = \<lparr>programs = [''7''], code_text = Some ''print(1)'', kill_raises = False,
                 popen_raises = False\<rparr>"

definition env_missing :: run_env where
  "env_missing = \<lparr>programs = [''7''], code_text = None, kill_raises = False,
                   popen_raises = False\<rparr>"

definition line_a :: "byte list" where
  "line_a = [0x61, 0x0A]"

definition line_b :: "byte list" where
  "line_b = [0x62, 0x0A]"

definition line_c :: "byte list" where
  "line_c = [0x63, 0x0A]"

section \<open>Selection of the program on the index page\<close>

lemma hd_sort_Min: "xs \<noteq> [] \<Longrightarrow> hd (sort xs) = Min (set xs)"
proof -
  assume ne: "xs \<noteq> []"
  then have "sort xs \<noteq> []" by (metis length_sort length_0_conv)
  then obtain y ys where e: "sort xs = y # ys" by (cases "sort xs") auto
  have s: "sorted (y # ys)" using sorted_sort e by metis
  have st: "set (y # ys) = set xs" using set_sort e by metis
  have "Min (set xs) = y"
  proof (rule Min_eqI)
    show "finite (set xs)" by simp
    show "\<And>z. z \<in> set xs \<Longrightarrow> y \<le> z" using s st by auto
    show "y \<in> set xs" using st by auto
  qed
  then show ?thesis using e by simp
qed

lemma get_programs_hd:
  "rows \<noteq> [] \<Longrightarrow> \<exists>ps. get_programs str rows = str (Min (block_index ` set rows)) # ps"
proof -
  assume ne: "rows \<noteq> []"
  let ?ks = "remdups (map block_index rows)"
  have k: "?ks \<noteq> []" using ne by simp
  then have "sort ?ks \<noteq> []" by (metis length_sort length_0_conv)
  then obtain y ys where e: "sort ?ks = y # ys" by (cases "sort ?ks") auto
  have "y = Min (set ?ks)" using hd_sort_Min[OF k] e by simp
  then have "y = Min (block_index ` set rows)" by simp
  then show ?thesis using e by (simp add: get_programs_def)
qed

lemma index_selected_cases:
  "progs \<noteq> [] \<Longrightarrow>
   index_selected progs arg =
     (case safe_program_name arg of
        None \<Rightarrow> Some (hd progs)
      | Some s \<Rightarrow> if s \<in> set progs then Some s else Some (hd progs))"
  by (cases progs) (auto simp: index_selected_def split: option.splits)

text \<open>
  C9. On \<open>GET /\<close> with a non-empty listing: when the normalised parameter is in the
  listing, exactly that program is selected; when the parameter is missing, rejected by
  the normalisation or not in the listing, the first program of the listing is selected,
  which is the one of the least \<open>block_index\<close>, the listing being the distinct indices in
  ascending order. No case is an error.
\<close>

theorem index_selects:
  assumes "rows \<noteq> []" and "progs = get_programs str rows"
  shows "(\<forall>s. safe_program_name arg = Some s \<and> s \<in> set progs \<longrightarrow>
            index_selected progs arg = Some s)
       \<and> ((safe_program_name arg = None
            \<or> (\<exists>s. safe_program_name arg = Some s \<and> s \<notin> set progs)) \<longrightarrow>
            index_selected progs arg = Some (str (Min (block_index ` set rows))))
       \<and> sorted (sort (remdups (map block_index rows)))
       \<and> progs = map str (sort (remdups (map block_index rows)))"
proof -
  obtain ps where p: "progs = str (Min (block_index ` set rows)) # ps"
    using get_programs_hd[OF assms(1), of str] assms(2) by auto
  then have ne: "progs \<noteq> []" by simp
  have h: "hd progs = str (Min (block_index ` set rows))" using p by simp
  show ?thesis
    using index_selected_cases[OF ne, of arg] h assms(2)
    by (auto simp: get_programs_def split: option.splits)
qed

theorem index_selects_witness:
  "index_selected [''1'', ''2''] (Some ''x/2.py'') = Some ''2''
   \<and> index_selected [''1'', ''2''] (Some ''9'') = Some ''1''
   \<and> index_selected [''1'', ''2''] None = Some ''1''"
proof -
  define rows where "rows = [\<lparr>block_index = 2::nat, cleaned_content = Some ''print(2)'', created_at = 0\<rparr>,
               \<lparr>block_index = 1, cleaned_content = Some ''print(1)'', created_at = 1\<rparr>,
               \<lparr>block_index = 2, cleaned_content = None, created_at = 2\<rparr>]"
  define str where "str = (\<lambda>n::nat. if n = 1 then ''1'' else ''2'')"
  have h1: "rows \<noteq> []" by (simp add: rows_def)
  have h2: "[''1'', ''2''] = get_programs str rows" by (simp add: get_programs_def rows_def str_def)
  have m: "str (Min (block_index ` set rows)) = ''1''" by (simp add: rows_def str_def)
  have n1: "safe_program_name (Some ''x/2.py'') = Some ''2''"
    by (simp add: safe_program_name_def basename_def endswith_def suffix_def)
  have n2: "safe_program_name (Some ''9'') = Some ''9''"
    by (simp add: safe_program_name_def basename_def endswith_def suffix_def)
  have n3: "safe_program_name None = None"
    by (simp add: safe_program_name_def)
  have a: "index_selected [''1'', ''2''] (Some ''x/2.py'') = Some ''2''"
    using index_selects[OF h1 h2, of "Some ''x/2.py''", THEN conjunct1] n1 by simp
  have b: "index_selected [''1'', ''2''] (Some ''9'') = Some ''1''"
    using index_selects[OF h1 h2, of "Some ''9''", THEN conjunct2, THEN conjunct1] n2 m by simp
  have c: "index_selected [''1'', ''2''] None = Some ''1''"
    using index_selects[OF h1 h2, of None, THEN conjunct2, THEN conjunct1] n3 m by simp
  show ?thesis using a b c by simp
qed

section \<open>Reactions: likes and dislikes\<close>

text \<open>
  C10, as stated, at the largest value of the column: a row with \<open>likes = 2147483647\<close>. The
  statement fails with "integer out of range" and the count is not increased.
\<close>

theorem increment_like_at_INT_MAX:
  "increment_like ''7'' [''7'' \<mapsto> \<lparr>likes = 2147483647, dislikes = 0\<rparr>] = Inl NumericValueOutOfRange
   \<and> get_reactions [''7'' \<mapsto> \<lparr>likes = 2147483647, dislikes = 0\<rparr>] ''7'' = (2147483647, 0)"
  by (simp add: increment_like_def int4_succ_def INT_MAX_def get_reactions_def)

text \<open>
  C10, amended. While the stored count is below 2147483647, \<open>increment_like\<close> succeeds,
  increases the likes of the program by exactly 1 and leaves its dislikes unchanged,
  inserting the row \<open>(1, 0)\<close> when there is none; \<open>increment_dislike\<close> does the same for
  the dislikes, inserting \<open>(0, 1)\<close>. The rows of the other programs are untouched. At
  2147483647 the statement raises and nothing is changed.
\<close>

theorem increment_reactions:
  "(fst (get_reactions db p) < INT_MAX \<longrightarrow>
      (\<exists>db'. increment_like p db = Inr db'
         \<and> get_reactions db' p = (fst (get_reactions db p) + 1, snd (get_reactions db p))
         \<and> (db p = None \<longrightarrow> db' p = Some \<lparr>likes = 1, dislikes = 0\<rparr>)
         \<and> (\<forall>q. q \<noteq> p \<longrightarrow> db' q = db q)))
   \<and> (snd (get_reactions db p) < INT_MAX \<longrightarrow>
      (\<exists>db'. increment_dislike p db = Inr db'
         \<and> get_reactions db' p = (fst (get_reactions db p), snd (get_reactions db p) + 1)
         \<and> (db p = None \<longrightarrow> db' p = Some \<lparr>likes = 0, dislikes = 1\<rparr>)
         \<and> (\<forall>q. q \<noteq> p \<longrightarrow> db' q = db q)))
   \<and> (fst (get_reactions db p) = INT_MAX \<longrightarrow> increment_like p db = Inl NumericValueOutOfRange)
   \<and> (snd (get_reactions db p) = INT_MAX \<longrightarrow> increment_dislike p db = Inl NumericValueOutOfRange)"
  by (cases "db p")
     (auto simp: increment_like_def increment_dislike_def int4_succ_def get_reactions_def INT_MAX_def)

theorem increment_reactions_witness:
  "(\<exists>db'. increment_like ''7'' [''7'' \<mapsto> \<lparr>likes = 4, dislikes = 2\<rparr>] = Inr db'
         \<and> get_reactions db' ''7'' = (5, 2))
   \<and> (\<exists>db'. increment_dislike ''7'' [''7'' \<mapsto> \<lparr>likes = 4, dislikes = 2\<rparr>] = Inr db'
         \<and> get_reactions db' ''7'' = (4, 3))
   \<and> (\<exists>db'. increment_like ''8'' [''7'' \<mapsto> \<lparr>likes = 4, dislikes = 2\<rparr>] = Inr db'
         \<and> get_reactions db' ''8'' = (1, 0) \<and> get_reactions db' ''7'' = (4, 2))"
proof -
  let ?db = "[''7'' \<mapsto> \<lparr>likes = 4, dislikes = 2\<rparr>]"
  have g: "get_reactions ?db ''7'' = (4, 2)" "get_reactions ?db ''8'' = (0, 0)"
    by (simp_all add: get_reactions_def)
  have b: "(4::int) < INT_MAX" "(2::int) < INT_MAX" "(0::int) < INT_MAX" by (simp_all add: INT_MAX_def)
  have a1: "\<exists>db'. increment_like ''7'' ?db = Inr db' \<and> get_reactions db' ''7'' = (5, 2)"
    using increment_reactions[of ?db "''7''", THEN conjunct1] g b by auto
  have a2: "\<exists>db'. increment_dislike ''7'' ?db = Inr db' \<and> get_reactions db' ''7'' = (4, 3)"
    using increment_reactions[of ?db "''7''", THEN conjunct2, THEN conjunct1] g b by auto
  have a3: "\<exists>db'. increment_like ''8'' ?db = Inr db' \<and> get_reactions db' ''8'' = (1, 0)
               \<and> get_reactions db' ''7'' = (4, 2)"
    using increment_reactions[of ?db "''8''", THEN conjunct1] g b
    by (auto simp: get_reactions_def)
  show ?thesis using a1 a2 a3 by blast
qed

section \<open>Normalisation of identifiers at the boundary\<close>

lemma basename_no_slash: "CHR ''/'' \<notin> set (basename p)"
proof -
  have "\<forall>c \<in> set (takeWhile (\<lambda>c. c \<noteq> CHR ''/'') (rev p)). c \<noteq> CHR ''/''"
    using set_takeWhileD by fastforce
  then show ?thesis by (auto simp: basename_def)
qed

lemma basename_append: "CHR ''/'' \<notin> set b \<Longrightarrow> basename (d @ ''/'' @ b) = b"
proof -
  assume a: "CHR ''/'' \<notin> set b"
  have t: "takeWhile (\<lambda>c. c \<noteq> CHR ''/'') (rev b) = rev b"
    using a by (auto simp: takeWhile_eq_all_conv)
  have "rev (d @ ''/'' @ b) = rev b @ (CHR ''/'' # rev d)" by simp
  then have "takeWhile (\<lambda>c. c \<noteq> CHR ''/'') (rev (d @ ''/'' @ b)) = rev b"
    using t by (simp only: takeWhile_tail simp_thms)
  then show ?thesis by (simp only: basename_def rev_rev_ident)
qed

lemma basename_plain: "CHR ''/'' \<notin> set b \<Longrightarrow> basename b = b"
proof -
  assume a: "CHR ''/'' \<notin> set b"
  have "takeWhile (\<lambda>c. c \<noteq> CHR ''/'') (rev b) = rev b"
    using a by (auto simp: takeWhile_eq_all_conv)
  then show ?thesis by (simp only: basename_def rev_rev_ident)
qed

text \<open>
  A value is a name \<open>b\<close> without \<open>/\<close>, alone or after a directory part that ends in \<open>/\<close>.
\<close>

lemma basename_pre:
  assumes "CHR ''/'' \<notin> set b" and "pre = [] \<or> (\<exists>d. pre = d @ ''/'')"
  shows "basename (pre @ b) = b"
proof (cases "pre = []")
  case True
  then show ?thesis using assms(1) by (simp add: basename_plain)
next
  case False
  then obtain d where "pre = d @ ''/''" using assms(2) by blast
  then have "pre @ b = d @ ''/'' @ b" by simp
  then show ?thesis using basename_append[OF assms(1), of d] by (simp only:)
qed

lemma path_shape:
  "\<exists>pre b. n = pre @ b \<and> CHR ''/'' \<notin> set b \<and> (pre = [] \<or> (\<exists>d. pre = d @ ''/''))"
proof -
  let ?P = "\<lambda>c. c \<noteq> CHR ''/''"
  let ?t = "takeWhile ?P (rev n)"
  let ?d = "dropWhile ?P (rev n)"
  have "rev n = ?t @ ?d" by simp
  then have "rev (rev n) = rev (?t @ ?d)" by (simp only:)
  then have n: "n = rev ?d @ rev ?t" by (simp only: rev_rev_ident rev_append)
  have b: "CHR ''/'' \<notin> set (rev ?t)"
    using basename_no_slash[of n] unfolding basename_def .
  have p: "rev ?d = [] \<or> (\<exists>d. rev ?d = d @ ''/'')"
  proof (cases ?d)
    case Nil
    then show ?thesis by simp
  next
    case (Cons c cs)
    then have "\<not> ?P c" using hd_dropWhile[of ?P "rev n"] by (metis list.sel(1) list.distinct(1))
    then have "c = CHR ''/''" by simp
    then have "rev ?d = rev cs @ ''/''" using Cons by simp
    then show ?thesis by blast
  qed
  show ?thesis using n b p by blast
qed

lemma safe_program_name_result:
  "safe_program_name name = Some r \<Longrightarrow> CHR ''/'' \<notin> set r \<and> CHR 0x5C \<notin> set r"
  by (auto simp: safe_program_name_def Let_def split: option.splits if_splits)

lemma safe_program_name_strips_py:
  assumes "CHR ''/'' \<notin> set b" and "CHR 0x5C \<notin> set b" and "pre = [] \<or> (\<exists>d. pre = d @ ''/'')"
  shows "safe_program_name (Some (pre @ b @ ''.py'')) = Some b"
proof -
  have "CHR ''/'' \<notin> set (b @ ''.py'')" using assms(1) by simp
  then have bn: "basename (pre @ (b @ ''.py'')) = b @ ''.py''" using assms(3) by (rule basename_pre)
  have e: "endswith (b @ ''.py'') ''.py''" by (simp add: endswith_def suffix_def)
  show ?thesis using bn e assms(1,2) by (simp add: safe_program_name_def Let_def)
qed

lemma safe_program_name_strips_dir:
  assumes "CHR ''/'' \<notin> set b" and "CHR 0x5C \<notin> set b" and "pre = [] \<or> (\<exists>d. pre = d @ ''/'')"
    and "pre @ b \<noteq> []" and "\<not> suffix ''.py'' b"
  shows "safe_program_name (Some (pre @ b)) = Some b"
proof -
  have bn: "basename (pre @ b) = b" using assms(1,3) by (rule basename_pre)
  have e: "\<not> endswith b ''.py''" using assms(5) by (simp add: endswith_def)
  have ne: "\<not> (pre = [] \<and> b = [])" using assms(4) by simp
  show ?thesis using bn e ne assms(1,2) by (simp add: safe_program_name_def Let_def)
qed

lemma safe_program_name_None:
  "safe_program_name (Some n) = None \<longleftrightarrow> n = [] \<or> CHR 0x5C \<in> set (basename n)"
proof -
  have t: "CHR 0x5C \<in> set (take (length b - 3) b) \<longleftrightarrow> CHR 0x5C \<in> set b" if "endswith b ''.py''" for b
  proof -
    from that obtain x where "b = x @ ''.py''" by (auto simp: endswith_def suffix_def)
    then show ?thesis by auto
  qed
  have s: "CHR ''/'' \<notin> set (take k (basename n))" for k
    using basename_no_slash[of n] by (meson in_set_takeD)
  show ?thesis
    using t[of "basename n"] s basename_no_slash[of n]
    by (auto simp: safe_program_name_def Let_def)
qed

lemma safe_program_name_rejects:
  assumes "CHR ''/'' \<notin> set b" and "pre = [] \<or> (\<exists>d. pre = d @ ''/'')"
  shows "safe_program_name (Some (pre @ b)) = None \<longleftrightarrow> pre @ b = [] \<or> CHR 0x5C \<in> set b"
  using safe_program_name_None[of "pre @ b"] basename_pre[OF assms] by (simp only:)

lemma run_program_rejected:
  assumes "safe_program_name form = None
           \<or> (\<exists>p. safe_program_name form = Some p \<and> (p = [] \<or> p \<notin> set (programs env)))"
  shows "run_program env form s
     = (Redirect (safe_program_name form), s\<lparr>trace := trace s @ [Normalise form, GetPrograms]\<rparr>)"
  using assms by (auto simp: run_program_def Let_def split: option.splits)

lemma run_program_order:
  "\<exists>rest. trace (snd (run_program env form s)) = trace s @ Normalise form # GetPrograms # rest
     \<and> (\<forall>q. GetCode q \<in> set rest \<longrightarrow> safe_program_name form = Some q \<and> q \<in> set (programs env))"
  by (auto simp: run_program_def Let_def kill_def split: option.splits if_splits)

text \<open>
  C3, as stated, at \<open>"../etc"\<close>: the normalisation does not reject it, it returns
  \<open>"etc"\<close>; and when the listing holds a program \<open>"etc"\<close>, \<open>POST /run\<close> with \<open>"../etc"\<close>
  looks its code up and launches it.
\<close>

theorem traversal_not_rejected:
  "safe_program_name (Some ''../etc'') = Some ''etc''
   \<and> running_processes
         (snd (run_program \<lparr>programs = [''etc''], code_text = Some ''print(1)'',
                              kill_raises = False, popen_raises = False\<rparr>
                 (Some ''../etc'') init)) ''etc'' = Some 0
   \<and> trace (snd (run_program \<lparr>programs = [''etc''], code_text = Some ''print(1)'',
                                kill_raises = False, popen_raises = False\<rparr>
                   (Some ''../etc'') init))
       = [Normalise (Some ''../etc''), GetPrograms, GetCode ''etc'', Popen 0, Store ''etc'' 0]"
proof -
  have n: "safe_program_name (Some ''../etc'') = Some ''etc''"
    by (simp add: safe_program_name_def basename_def endswith_def suffix_def)
  show ?thesis
    by (simp add: n run_program_def Let_def init_def)
qed

text \<open>
  C3, amended. \<open>safe_program_name\<close> maps \<open>"../etc"\<close> to \<open>"etc"\<close>. Every value \<open>n\<close> is a
  name \<open>b\<close> without \<open>/\<close>, alone or after a directory part \<open>pre\<close> that ends in \<open>/\<close>; on every
  such value the result is fixed: the directory part and one trailing \<open>.py\<close> are stripped
  (\<open>pre @ b @ ".py"\<close> gives \<open>b\<close>, and \<open>pre @ b\<close> gives \<open>b\<close> when \<open>b\<close> does not end in \<open>.py\<close>),
  and the value is rejected (\<open>None\<close>) exactly when it is missing, empty, or \<open>b\<close> holds a
  backslash. Whatever is returned holds neither \<open>/\<close> nor a backslash. In \<open>POST /run\<close> the
  normalisation comes first, then \<open>get_programs()\<close>, then everything else: when the
  normalisation rejects, or its result is empty or not in the listing, the handler redirects
  after these two calls alone, with no code lookup, no launch and no change of the tables;
  and every code lookup the handler makes comes after them and is for the normalised
  identifier, found in the listing.
\<close>

theorem normalisation_before_lookup:
  "safe_program_name (Some ''../etc'') = Some ''etc''
   \<and> safe_program_name None = None
   \<and> (\<exists>pre b. n = pre @ b \<and> CHR ''/'' \<notin> set b \<and> (pre = [] \<or> (\<exists>d. pre = d @ ''/'')))
   \<and> (CHR ''/'' \<notin> set b \<and> (pre = [] \<or> (\<exists>d. pre = d @ ''/'')) \<longrightarrow>
        (safe_program_name (Some (pre @ b)) = None \<longleftrightarrow> pre @ b = [] \<or> CHR 0x5C \<in> set b)
        \<and> (CHR 0x5C \<notin> set b \<longrightarrow>
             safe_program_name (Some (pre @ b @ ''.py'')) = Some b
             \<and> (pre @ b \<noteq> [] \<and> \<not> suffix ''.py'' b \<longrightarrow>
                  safe_program_name (Some (pre @ b)) = Some b)))
   \<and> (\<forall>r. safe_program_name name = Some r \<longrightarrow> CHR ''/'' \<notin> set r \<and> CHR 0x5C \<notin> set r)
   \<and> (safe_program_name form = None
        \<or> (\<exists>p. safe_program_name form = Some p \<and> (p = [] \<or> p \<notin> set (programs env))) \<longrightarrow>
        run_program env form s
          = (Redirect (safe_program_name form),
             s\<lparr>trace := trace s @ [Normalise form, GetPrograms]\<rparr>))
   \<and> (\<exists>rest. trace (snd (run_program env form s))
                 = trace s @ Normalise form # GetPrograms # rest
        \<and> (\<forall>q. GetCode q \<in> set rest \<longrightarrow>
               safe_program_name form = Some q \<and> q \<in> set (programs env)))"
proof -
  have c1: "safe_program_name (Some ''../etc'') = Some ''etc''"
    by (simp add: safe_program_name_def basename_def endswith_def suffix_def)
  have c2: "safe_program_name None = None"
    by (simp add: safe_program_name_def)
  have c4: "CHR ''/'' \<notin> set b \<and> (pre = [] \<or> (\<exists>d. pre = d @ ''/'')) \<longrightarrow>
        (safe_program_name (Some (pre @ b)) = None \<longleftrightarrow> pre @ b = [] \<or> CHR 0x5C \<in> set b)
        \<and> (CHR 0x5C \<notin> set b \<longrightarrow>
             safe_program_name (Some (pre @ b @ ''.py'')) = Some b
             \<and> (pre @ b \<noteq> [] \<and> \<not> suffix ''.py'' b \<longrightarrow>
                  safe_program_name (Some (pre @ b)) = Some b))"
  proof (intro impI conjI)
    assume a: "CHR ''/'' \<notin> set b \<and> (pre = [] \<or> (\<exists>d. pre = d @ ''/''))"
    show "safe_program_name (Some (pre @ b)) = None \<longleftrightarrow> pre @ b = [] \<or> CHR 0x5C \<in> set b"
      using a by (intro safe_program_name_rejects) simp_all
    show "safe_program_name (Some (pre @ b @ ''.py'')) = Some b" if "CHR 0x5C \<notin> set b"
      using a that by (intro safe_program_name_strips_py) simp_all
    show "safe_program_name (Some (pre @ b)) = Some b"
      if "CHR 0x5C \<notin> set b" and "pre @ b \<noteq> [] \<and> \<not> suffix ''.py'' b"
      using a that by (intro safe_program_name_strips_dir) simp_all
  qed
  have c5: "\<forall>r. safe_program_name name = Some r \<longrightarrow> CHR ''/'' \<notin> set r \<and> CHR 0x5C \<notin> set r"
    using safe_program_name_result[of name] by blast
  have c6: "safe_program_name form = None
        \<or> (\<exists>p. safe_program_name form = Some p \<and> (p = [] \<or> p \<notin> set (programs env))) \<longrightarrow>
        run_program env form s
          = (Redirect (safe_program_name form),
             s\<lparr>trace := trace s @ [Normalise form, GetPrograms]\<rparr>)"
    using run_program_rejected[of form env s] by blast
  show ?thesis
    using c1 c2 path_shape[of n] c4 c5 c6 run_program_order[of env form s]
    by (intro conjI)
qed

text \<open>
  The theorem at \<open>"7"\<close>, \<open>"7.py"\<close>, \<open>"a/b"\<close>, \<open>"a/b/7.py"\<close> and \<open>"a\b"\<close>, and at a
  \<open>POST /run\<close> of \<open>"../etc"\<close> when only \<open>"7"\<close> is listed.
\<close>

theorem normalisation_before_lookup_witness:
  "safe_program_name (Some ''7'') = Some ''7''
   \<and> safe_program_name (Some ''7.py'') = Some ''7''
   \<and> safe_program_name (Some ''a/b'') = Some ''b''
   \<and> safe_program_name (Some ''a/b/7.py'') = Some ''7''
   \<and> safe_program_name (Some [CHR ''a'', CHR 0x5C, CHR ''b'']) = None
   \<and> run_program \<lparr>programs = [''7''], code_text = Some ''print(1)'',
                    kill_raises = False, popen_raises = False\<rparr> (Some ''../etc'') init
       = (Redirect (Some ''etc''), init\<lparr>trace := [Normalise (Some ''../etc''), GetPrograms]\<rparr>)"
proof -
  let ?env = "\<lparr>programs = [''7''], code_text = Some ''print(1)'',
               kill_raises = False, popen_raises = False\<rparr>"
  note shape = normalisation_before_lookup[THEN conjunct2, THEN conjunct2, THEN conjunct2,
      THEN conjunct1]
  have w1: "safe_program_name (Some ([] @ ''7'')) = Some ''7''"
    using shape[of "''7''" "[]"] by (simp add: suffix_def)
  have w2: "safe_program_name (Some ([] @ ''7'' @ ''.py'')) = Some ''7''"
    using shape[of "''7''" "[]"] by simp
  have w3: "safe_program_name (Some (''a/'' @ ''b'')) = Some ''b''"
    using shape[of "''b''" "''a/''"] by (simp add: suffix_def)
  have w4: "safe_program_name (Some (''a/b/'' @ ''7'' @ ''.py'')) = Some ''7''"
    using shape[of "''7''" "''a/b/''"] by simp
  have w5: "safe_program_name (Some ([] @ [CHR ''a'', CHR 0x5C, CHR ''b''])) = None"
    using shape[of "[CHR ''a'', CHR 0x5C, CHR ''b'']" "[]"] by simp
  have e: "safe_program_name (Some ''../etc'') = Some ''etc''"
    using normalisation_before_lookup[THEN conjunct1] .
  have r: "\<exists>p. safe_program_name (Some ''../etc'') = Some p \<and> (p = [] \<or> p \<notin> set (programs ?env))"
    using e by simp
  have b: "run_program ?env (Some ''../etc'') init
       = (Redirect (safe_program_name (Some ''../etc'')),
          init\<lparr>trace := trace init @ [Normalise (Some ''../etc''), GetPrograms]\<rparr>)"
    using normalisation_before_lookup[of _ _ _ _ "Some ''../etc''" ?env init, THEN conjunct2,
        THEN conjunct2, THEN conjunct2, THEN conjunct2, THEN conjunct2, THEN conjunct1] r
    by blast
  have t: "trace init = []" by (simp add: init_def)
  show ?thesis using w1 w2 w3 w4 w5 b e t by simp
qed

section \<open>Worked runs\<close>

text \<open>
  Facts for evaluating schedules: the scenario lines decode to themselves, \<open>"7"\<close> is its
  own normal form, and a schedule runs step by step.
\<close>

lemma decode_line_a: "decode Replace line_a = Inr [97, 10]"
  by (simp add: line_a_def utf8_decode_one_def)

lemma decode_line_b: "decode Replace line_b = Inr [98, 10]"
  by (simp add: line_b_def utf8_decode_one_def)

lemma decode_line_c: "decode Replace line_c = Inr [99, 10]"
  by (simp add: line_c_def utf8_decode_one_def)

lemma lines_nonempty: "line_a \<noteq> []" "line_b \<noteq> []" "line_c \<noteq> []"
  by (simp_all add: line_a_def line_b_def line_c_def)

lemma seven: "safe_program_name (Some ''7'') = Some ''7''"
  by (simp add: safe_program_name_def basename_def endswith_def suffix_def)

lemma exec_Nil: "exec [] s = s"
  by (simp add: exec_def)

lemma exec_Cons: "exec (l # ls) s = exec ls (step l s)"
  by (simp add: exec_def)

lemma exec_snoc: "exec (ls @ [l]) s = step l (exec ls s)"
  by (simp add: exec_def)

lemmas run_simps = exec_Nil exec_Cons step.simps run_program_def pump_read_def pump_append_def
  pump_eof_def stream_program_def viewer_poll_def Let_def kill_def new_pump_def init_def
  env_found_def env_missing_def seven decode_line_a decode_line_b decode_line_c lines_nonempty
  last_output_get_def

section \<open>Superseding a run\<close>

text \<open>
  C6. When a handle \<open>h\<close> is tracked for \<open>p\<close> and \<open>POST /run\<close> is handled for the listed
  identifier \<open>p\<close>, what the handler does, in order, is: normalise, list, \<open>kill\<close> on \<open>h\<close>,
  look the code up and, when the code is found and the child starts, start the child and
  store the new handle. So the kill is requested before the new handle is stored, and the
  new handle is the one tracked afterwards. Whether \<open>kill\<close> raises makes no difference to
  the response or to the state: the exception is swallowed, and the response is the
  redirect unless \<open>Popen\<close> itself fails.
\<close>

theorem kill_before_store:
  assumes "running_processes s p = Some h" and "safe_program_name form = Some p" and "p \<noteq> []"
    and "p \<in> set (programs env)"
  shows "trace (snd (run_program env form s))
       = trace s @ [Normalise form, GetPrograms, Kill h, GetCode p]
           @ (if code_text env = None \<or> popen_raises env then []
              else [Popen (next_pid s), Store p (next_pid s)])
     \<and> running_processes (snd (run_program env form s))
       = (if code_text env = None \<or> popen_raises env then running_processes s
          else (running_processes s)(p \<mapsto> next_pid s))
     \<and> fst (run_program env form s)
       = (if code_text env \<noteq> None \<and> popen_raises env then InternalServerError
          else Redirect (Some p))
     \<and> run_program (env\<lparr>kill_raises := True\<rparr>) form s
       = run_program (env\<lparr>kill_raises := False\<rparr>) form s"
  using assms by (cases "code_text env") (simp_all add: run_program_def Let_def kill_def)

text \<open>
  The theorem at a second run of \<open>"7"\<close> whose \<open>kill\<close> raises, after a first run of \<open>"7"\<close>.
\<close>

theorem kill_before_store_witness:
  "trace (snd (run_program (env_found\<lparr>kill_raises := True\<rparr>) (Some ''7'')
                 (exec [PostRun (Some ''7'') env_found] init)))
     = [Normalise (Some ''7''), GetPrograms, GetCode ''7'', Popen 0, Store ''7'' 0,
        Normalise (Some ''7''), GetPrograms, Kill 0, GetCode ''7'', Popen 1, Store ''7'' 1]
   \<and> fst (run_program (env_found\<lparr>kill_raises := True\<rparr>) (Some ''7'')
                 (exec [PostRun (Some ''7'') env_found] init)) = Redirect (Some ''7'')
   \<and> running_processes (snd (run_program (env_found\<lparr>kill_raises := True\<rparr>) (Some ''7'')
                 (exec [PostRun (Some ''7'') env_found] init))) ''7'' = Some 1"
proof -
  let ?s = "exec [PostRun (Some ''7'') env_found] init"
  let ?env = "env_found\<lparr>kill_raises := True\<rparr>"
  have h1: "running_processes ?s ''7'' = Some 0" by (simp add: run_simps)
  have h2: "''7'' \<in> set (programs ?env)" by (simp add: env_found_def)
  have h3: "\<not> (code_text ?env = None \<or> popen_raises ?env)" by (simp add: env_found_def)
  have h4: "\<not> (code_text ?env \<noteq> None \<and> popen_raises ?env)" by (simp add: env_found_def)
  have t: "trace ?s = [Normalise (Some ''7''), GetPrograms, GetCode ''7'', Popen 0, Store ''7'' 0]"
    by (simp add: run_simps)
  have n: "next_pid ?s = 1" by (simp add: run_simps)
  note k = kill_before_store[OF h1 seven _ h2]
  have ne: "''7'' \<noteq> []" by simp
  have a: "trace (snd (run_program ?env (Some ''7'') ?s))
       = trace ?s @ [Normalise (Some ''7''), GetPrograms, Kill 0, GetCode ''7'']
           @ [Popen (next_pid ?s), Store ''7'' (next_pid ?s)]"
    using k[OF ne, THEN conjunct1] h3 by (simp only: if_False)
  have b: "running_processes (snd (run_program ?env (Some ''7'') ?s))
       = (running_processes ?s)(''7'' \<mapsto> next_pid ?s)"
    using k[OF ne, THEN conjunct2, THEN conjunct1] h3 by (simp only: if_False)
  have c: "fst (run_program ?env (Some ''7'') ?s) = Redirect (Some ''7'')"
    using k[OF ne, THEN conjunct2, THEN conjunct2, THEN conjunct1] h4 by (simp only: if_False)
  show ?thesis using a b c t n by simp
qed

section \<open>A failed code lookup\<close>

text \<open>
  C1, as stated, at a run of \<open>"7"\<close> that printed \<open>a\<close>, followed by a \<open>POST /run\<close> of
  \<open>"7"\<close> whose code lookup fails: the displayed output \<open>"a\n"\<close> is reset to the empty
  string, the queue of the identifier is replaced (address 0 by address 1), and the tracked
  process 0 is sent a kill, all before the lookup.
\<close>

theorem lookup_failure_mutates:
  "last_output (exec [PostRun (Some ''7'') env_found, PumpRead 0 line_a, PumpAppend 0] init) ''7''
     = Some [97, 10]
   \<and> last_output (exec [PostRun (Some ''7'') env_found, PumpRead 0 line_a, PumpAppend 0,
                         PostRun (Some ''7'') env_missing] init) ''7''
     = Some []
   \<and> output_queues (exec [PostRun (Some ''7'') env_found, PumpRead 0 line_a, PumpAppend 0] init) ''7''
     = Some 0
   \<and> output_queues (exec [PostRun (Some ''7'') env_found, PumpRead 0 line_a, PumpAppend 0,
                            PostRun (Some ''7'') env_missing] init) ''7''
     = Some 1
   \<and> trace (exec [PostRun (Some ''7'') env_found, PumpRead 0 line_a, PumpAppend 0,
                    PostRun (Some ''7'') env_missing] init)
     = [Normalise (Some ''7''), GetPrograms, GetCode ''7'', Popen 0, Store ''7'' 0,
        Put 0 0 [97, 10], Append 0 ''7'' [97, 10],
        Normalise (Some ''7''), GetPrograms, Kill 0, GetCode ''7'']"
  by (simp add: run_simps)

text \<open>
  C1, amended. When the code lookup of a validated identifier \<open>p\<close> fails, the handler
  redirects, no child is launched, no pump is started and \<open>running_processes\<close> is
  unchanged; but the previously tracked process of \<open>p\<close>, if any, has been sent a kill,
  \<open>output_queues[p]\<close> is a fresh empty queue and \<open>last_output[p]\<close> is the empty string.
\<close>

theorem lookup_failure_effects:
  assumes "safe_program_name form = Some p" and "p \<noteq> []" and "p \<in> set (programs env)"
    and "code_text env = None"
  shows "\<exists>s'. run_program env form s = (Redirect (Some p), s')
     \<and> running_processes s' = running_processes s \<and> pumps s' = pumps s
     \<and> next_pid s' = next_pid s \<and> viewers s' = viewers s
     \<and> output_queues s' = (output_queues s)(p \<mapsto> next_queue s)
     \<and> queues s' = (queues s)(next_queue s := [])
     \<and> next_queue s' = Suc (next_queue s)
     \<and> last_output s' = (last_output s)(p \<mapsto> [])
     \<and> trace s' = trace s @ [Normalise form, GetPrograms]
          @ (case running_processes s p of None \<Rightarrow> [] | Some h \<Rightarrow> [Kill h]) @ [GetCode p]"
  using assms by (cases "running_processes s p") (simp_all add: run_program_def Let_def kill_def)

text \<open>
  The theorem at the failed lookup above, and at a failed lookup in the initial state.
\<close>

theorem lookup_failure_effects_witness:
  "last_output (snd (run_program env_missing (Some ''7'')
       (exec [PostRun (Some ''7'') env_found, PumpRead 0 line_a, PumpAppend 0] init))) ''7'' = Some []
   \<and> running_processes (snd (run_program env_missing (Some ''7'')
       (exec [PostRun (Some ''7'') env_found, PumpRead 0 line_a, PumpAppend 0] init))) ''7'' = Some 0
   \<and> trace (snd (run_program env_missing (Some ''7'') init))
       = [Normalise (Some ''7''), GetPrograms, GetCode ''7'']"
proof -
  let ?s = "exec [PostRun (Some ''7'') env_found, PumpRead 0 line_a, PumpAppend 0] init"
  have h2: "''7'' \<in> set (programs env_missing)" by (simp add: env_missing_def)
  have h3: "code_text env_missing = None" by (simp add: env_missing_def)
  have rp: "running_processes ?s ''7'' = Some 0" by (simp add: run_simps)
  from lookup_failure_effects[OF seven _ h2 h3, of ?s]
  obtain s' where r: "run_program env_missing (Some ''7'') ?s = (Redirect (Some ''7''), s')"
    and a: "running_processes s' = running_processes ?s"
    and b: "last_output s' = (last_output ?s)(''7'' \<mapsto> [])"
    by auto
  from lookup_failure_effects[OF seven _ h2 h3, of init]
  obtain s'' where r2: "run_program env_missing (Some ''7'') init = (Redirect (Some ''7''), s'')"
    and c: "trace s'' = trace init @ [Normalise (Some ''7''), GetPrograms]
          @ (case running_processes init ''7'' of None \<Rightarrow> [] | Some h \<Rightarrow> [Kill h]) @ [GetCode ''7'']"
    by auto
  have i: "trace init = []" "running_processes init ''7'' = None" by (simp_all add: init_def)
  show ?thesis using r a b rp r2 c i by simp
qed

section \<open>Invariants of the schedules\<close>

text \<open>
  The projections of the trace distribute over concatenation, and each step keeps three
  invariants of the states reached from \<open>init\<close>: what a generator has sent is the
  directive and the frames of what it took; what was put on a queue is what was taken from
  it followed by what it holds; what a pump offered is what it appended followed by what it
  holds.
\<close>

lemma taken_append: "taken j (xs @ ys) = taken j xs @ taken j ys"
  by (induction j xs rule: taken.induct) simp_all

lemma put_on_append: "put_on qa (xs @ ys) = put_on qa xs @ put_on qa ys"
  by (induction qa xs rule: put_on.induct) simp_all

lemma got_from_append: "got_from qa (xs @ ys) = got_from qa xs @ got_from qa ys"
  by (induction qa xs rule: got_from.induct) simp_all

lemma offered_append: "offered i (xs @ ys) = offered i xs @ offered i ys"
  by (induction i xs rule: offered.induct) simp_all

lemma appended_append: "appended i (xs @ ys) = appended i xs @ appended i ys"
  by (induction i xs rule: appended.induct) simp_all

lemmas proj_append = taken_append put_on_append got_from_append offered_append appended_append

text \<open>What a \<open>POST /run\<close> leaves alone.\<close>

lemma run_program_frame:
  "viewers (snd (run_program env form s)) = viewers s
   \<and> taken j (trace (snd (run_program env form s))) = taken j (trace s)
   \<and> put_on qa (trace (snd (run_program env form s))) = put_on qa (trace s)
   \<and> got_from qa (trace (snd (run_program env form s))) = got_from qa (trace s)
   \<and> offered i (trace (snd (run_program env form s))) = offered i (trace s)
   \<and> appended i (trace (snd (run_program env form s))) = appended i (trace s)"
  by (simp add: run_program_def Let_def kill_def proj_append split: option.splits)






lemma pending_cong: "pumps s' = pumps s \<Longrightarrow> pending i s' = pending i s"
  by (simp add: pending_def)

lemma pending_run_program: "pending i (snd (run_program env form s)) = pending i s"
  by (auto simp: run_program_def Let_def kill_def new_pump_def pending_def nth_append
      less_Suc_eq split: option.splits)

lemma pump_read_cases:
  "pump_read k line s = s
   \<or> (\<exists>d. k < length (pumps s) \<and> pending k s = []
          \<and> trace (pump_read k line s) = trace s @ [Put k (pump_q (pumps s ! k)) d]
          \<and> (\<forall>i. pending i (pump_read k line s) = (if i = k then [d] else pending i s))
          \<and> length (pumps (pump_read k line s)) = length (pumps s))"
  by (auto simp: pump_read_def Let_def pending_def nth_list_update split: sum.splits)

lemma pump_append_cases:
  "pump_append k s = s
   \<or> (\<exists>d. k < length (pumps s) \<and> pending k s = [d]
          \<and> trace (pump_append k s) = trace s @ [Append k (pump_prog (pumps s ! k)) d]
          \<and> (\<forall>i. pending i (pump_append k s) = (if i = k then [] else pending i s))
          \<and> length (pumps (pump_append k s)) = length (pumps s))"
  by (auto simp: pump_append_def Let_def pending_def nth_list_update split: option.splits)

lemma pump_eof_frame:
  "trace (pump_eof k s) = trace s \<and> pending i (pump_eof k s) = pending i s
   \<and> length (pumps (pump_eof k s)) = length (pumps s)"
  by (auto simp: pump_eof_def Let_def pending_def nth_list_update)

lemma run_program_pumps_length: "length (pumps s) \<le> length (pumps (snd (run_program env form s)))"
  by (auto simp: run_program_def Let_def kill_def split: option.splits)

lemma step_pumps:
  assumes "\<forall>i. offered i (trace s) = appended i (trace s) @ pending i s
              \<and> (length (pumps s) \<le> i \<longrightarrow> offered i (trace s) = [])"
  shows "\<forall>i. offered i (trace (step l s)) = appended i (trace (step l s)) @ pending i (step l s)
              \<and> (length (pumps (step l s)) \<le> i \<longrightarrow> offered i (trace (step l s)) = [])"
proof -
  have a: "offered i (trace s) = appended i (trace s) @ pending i s" for i
    using assms by blast
  have b: "offered i (trace s) = []" if "length (pumps s) \<le> i" for i
    using assms that by blast
  have same: ?thesis if "step l s = s"
    unfolding that using assms .
  have frame: ?thesis
    if "\<And>i. offered i (trace (step l s)) = offered i (trace s)"
      and "\<And>i. appended i (trace (step l s)) = appended i (trace s)"
      and "\<And>i. pending i (step l s) = pending i s"
      and "length (pumps s) \<le> length (pumps (step l s))"
  proof (intro allI conjI impI)
    fix i
    show "offered i (trace (step l s)) = appended i (trace (step l s)) @ pending i (step l s)"
      using a[of i] by (simp only: that(1,2,3))
  next
    fix i
    assume "length (pumps (step l s)) \<le> i"
    then have "length (pumps s) \<le> i" using that(4) by simp
    then show "offered i (trace (step l s)) = []" using b[of i] by (simp only: that(1))
  qed
  show ?thesis
  proof (cases l)
    case (PostRun form env)
    show ?thesis
      by (rule frame)
        (simp_all only: PostRun step.simps run_program_frame pending_run_program
          run_program_pumps_length)
  next
    case (PumpRead k line)
    from pump_read_cases[of k line s] show ?thesis
    proof
      assume "pump_read k line s = s"
      then show ?thesis by (intro same) (simp only: PumpRead step.simps)
    next
      assume "\<exists>d. k < length (pumps s) \<and> pending k s = []
            \<and> trace (pump_read k line s) = trace s @ [Put k (pump_q (pumps s ! k)) d]
            \<and> (\<forall>i. pending i (pump_read k line s) = (if i = k then [d] else pending i s))
            \<and> length (pumps (pump_read k line s)) = length (pumps s)"
      then obtain d where k: "k < length (pumps s)" and p: "pending k s = []"
        and t: "trace (pump_read k line s) = trace s @ [Put k (pump_q (pumps s ! k)) d]"
        and q: "\<And>i. pending i (pump_read k line s) = (if i = k then [d] else pending i s)"
        and n: "length (pumps (pump_read k line s)) = length (pumps s)" by blast
      show ?thesis
        unfolding PumpRead step.simps t q n
      proof (intro allI conjI impI)
        fix i
        show "offered i (trace s @ [Put k (pump_q (pumps s ! k)) d])
            = appended i (trace s @ [Put k (pump_q (pumps s ! k)) d])
              @ (if i = k then [d] else pending i s)"
          using a[of i] p by (simp add: proj_append)
      next
        fix i
        assume "length (pumps s) \<le> i"
        then show "offered i (trace s @ [Put k (pump_q (pumps s ! k)) d]) = []"
          using b[of i] k by (simp add: proj_append)
      qed
    qed
  next
    case (PumpAppend k)
    from pump_append_cases[of k s] show ?thesis
    proof
      assume "pump_append k s = s"
      then show ?thesis by (intro same) (simp only: PumpAppend step.simps)
    next
      assume "\<exists>d. k < length (pumps s) \<and> pending k s = [d]
            \<and> trace (pump_append k s) = trace s @ [Append k (pump_prog (pumps s ! k)) d]
            \<and> (\<forall>i. pending i (pump_append k s) = (if i = k then [] else pending i s))
            \<and> length (pumps (pump_append k s)) = length (pumps s)"
      then obtain d where k: "k < length (pumps s)" and p: "pending k s = [d]"
        and t: "trace (pump_append k s) = trace s @ [Append k (pump_prog (pumps s ! k)) d]"
        and q: "\<And>i. pending i (pump_append k s) = (if i = k then [] else pending i s)"
        and n: "length (pumps (pump_append k s)) = length (pumps s)" by blast
      show ?thesis
        unfolding PumpAppend step.simps t q n
      proof (intro allI conjI impI)
        fix i
        show "offered i (trace s @ [Append k (pump_prog (pumps s ! k)) d])
            = appended i (trace s @ [Append k (pump_prog (pumps s ! k)) d])
              @ (if i = k then [] else pending i s)"
          using a[of i] p by (simp add: proj_append)
      next
        fix i
        assume "length (pumps s) \<le> i"
        then show "offered i (trace s @ [Append k (pump_prog (pumps s ! k)) d]) = []"
          using b[of i] by (simp add: proj_append)
      qed
    qed
  next
    case (PumpEof k)
    show ?thesis
      by (rule frame) (simp_all only: PumpEof step.simps pump_eof_frame order_refl)
  next
    case (GetStream name)
    show ?thesis
      by (rule frame)
        (simp_all add: GetStream stream_program_def Let_def proj_append pending_def)
  next
    case (ViewerPoll k)
    show ?thesis
      by (rule frame)
        (simp_all add: ViewerPoll viewer_poll_def Let_def proj_append pending_def
          split: option.splits list.splits)
  qed
qed

lemma exec_pumps:
  "\<forall>i. offered i (trace (exec ls init))
          = appended i (trace (exec ls init)) @ pending i (exec ls init)
      \<and> (length (pumps (exec ls init)) \<le> i \<longrightarrow> offered i (trace (exec ls init)) = [])"
proof (induction ls rule: rev_induct)
  case Nil
  then show ?case by (simp add: exec_Nil init_def pending_def)
next
  case (snoc l ls)
  show ?case unfolding exec_snoc by (rule step_pumps[OF snoc])
qed

lemma pending_length: "length (pending i s) \<le> 1"
  by (simp add: pending_def split: option.splits)

lemma idle_poll:
  assumes "j < length (viewers s)"
    and "viewer_q (viewers s ! j) = None
         \<or> (\<exists>qa. viewer_q (viewers s ! j) = Some qa \<and> queues s qa = [])"
  shows "exec (replicate n (ViewerPoll j)) s = s"
proof (induction n)
  case 0
  then show ?case by (simp add: exec_Nil)
next
  case (Suc n)
  have "viewer_poll j s = s" using assms by (auto simp: viewer_poll_def Let_def)
  then show ?case using Suc by (simp add: exec_Cons)
qed

lemma busy_poll:
  assumes "j < length (viewers s)" and "viewer_q (viewers s ! j) = Some qa"
    and "queues s qa = line # rest"
  shows "viewers (step (ViewerPoll j) s)
           = (viewers s)[j := (viewers s ! j)\<lparr>viewer_out :=
                viewer_out (viewers s ! j) @ [ustr ''data: '' @ line @ ustr ''\<newline>\<newline>'']\<rparr>]
         \<and> queues (step (ViewerPoll j) s) = (queues s)(qa := rest)"
  using assms by (simp add: viewer_poll_def Let_def frame_def)

text \<open>What the two steps of a pump do, when they do anything.\<close>

lemma pump_read_effect:
  "pump_read k line s = s
   \<or> (\<exists>d. decode Replace line = Inr d
          \<and> trace (pump_read k line s) = trace s @ [Put k (pump_q (pumps s ! k)) d]
          \<and> queues (pump_read k line s)
              = (queues s)(pump_q (pumps s ! k) := queues s (pump_q (pumps s ! k)) @ [d])
          \<and> last_output (pump_read k line s) = last_output s)"
  by (auto simp: pump_read_def Let_def split: sum.splits)

lemma pump_append_effect:
  "pump_append k s = s
   \<or> (\<exists>d. pending k s = [d]
          \<and> trace (pump_append k s) = trace s @ [Append k (pump_prog (pumps s ! k)) d]
          \<and> last_output (pump_append k s)
              = (last_output s)(pump_prog (pumps s ! k) \<mapsto>
                                  last_output_get s (pump_prog (pumps s ! k)) @ d)
          \<and> queues (pump_append k s) = queues s)"
  by (auto simp: pump_append_def Let_def pending_def split: option.splits)

section \<open>The displayed output follows the queue\<close>

text \<open>
  C5. In every state reached by a schedule from the initial state, and for every pump
  (one pump serves one stream of one execution): the chunks the pump put on its queue are
  the chunks it appended to \<open>last_output\<close>, in the same order, followed by the one chunk it
  has put and not yet appended, if any. So the appended chunks are a prefix of the offered
  ones, at most one chunk behind. The two sequences are those of the trace, and the trace
  records what is done: a step \<open>PumpRead\<close> that does anything puts the decoded line at
  the end of the queue the pump was started with, and records it; a step \<open>PumpAppend\<close>
  that does anything appends the chunk the pump holds to \<open>last_output\<close> of its program,
  and records it.
\<close>

theorem buffer_follows_channel:
  "offered i (trace (exec ls init)) = appended i (trace (exec ls init)) @ pending i (exec ls init)
   \<and> prefix (appended i (trace (exec ls init))) (offered i (trace (exec ls init)))
   \<and> length (offered i (trace (exec ls init))) \<le> Suc (length (appended i (trace (exec ls init))))
   \<and> (pump_read k line s = s
       \<or> (\<exists>d. decode Replace line = Inr d
              \<and> trace (pump_read k line s) = trace s @ [Put k (pump_q (pumps s ! k)) d]
              \<and> queues (pump_read k line s)
                  = (queues s)(pump_q (pumps s ! k) := queues s (pump_q (pumps s ! k)) @ [d])
              \<and> last_output (pump_read k line s) = last_output s))
   \<and> (pump_append k s = s
       \<or> (\<exists>d. pending k s = [d]
              \<and> trace (pump_append k s) = trace s @ [Append k (pump_prog (pumps s ! k)) d]
              \<and> last_output (pump_append k s)
                  = (last_output s)(pump_prog (pumps s ! k) \<mapsto>
                                      last_output_get s (pump_prog (pumps s ! k)) @ d)
              \<and> queues (pump_append k s) = queues s))"
proof -
  have a: "offered i (trace (exec ls init))
             = appended i (trace (exec ls init)) @ pending i (exec ls init)"
    using exec_pumps[of ls] by blast
  have b: "prefix (appended i (trace (exec ls init))) (offered i (trace (exec ls init)))"
    unfolding a by (rule prefixI) simp
  have c: "length (offered i (trace (exec ls init))) \<le> Suc (length (appended i (trace (exec ls init))))"
    unfolding a using pending_length[of i "exec ls init"] by simp
  show ?thesis
    using a b c pump_read_effect[of k line s] pump_append_effect[of k s] by (intro conjI)
qed

text \<open>
  The theorem on a run of \<open>"7"\<close> whose stdout pump has put \<open>a\<close> and \<open>b\<close> and appended
  \<open>a\<close>, while the stderr pump has put \<open>c\<close>.
\<close>

theorem buffer_follows_channel_witness:
  "offered 0 (trace (exec [PostRun (Some ''7'') env_found, PumpRead 0 line_a, PumpAppend 0,
                            PumpRead 1 line_c, PumpRead 0 line_b] init)) = [[97, 10], [98, 10]]
   \<and> appended 0 (trace (exec [PostRun (Some ''7'') env_found, PumpRead 0 line_a, PumpAppend 0,
                            PumpRead 1 line_c, PumpRead 0 line_b] init)) = [[97, 10]]
   \<and> pending 0 (exec [PostRun (Some ''7'') env_found, PumpRead 0 line_a, PumpAppend 0,
                            PumpRead 1 line_c, PumpRead 0 line_b] init) = [[98, 10]]
   \<and> prefix [[97, 10]] [[97, 10], [98::nat, 10]]"
proof -
  let ?ls = "[PostRun (Some ''7'') env_found, PumpRead 0 line_a, PumpAppend 0,
              PumpRead 1 line_c, PumpRead 0 line_b]"
  have t: "trace (exec ?ls init)
     = [Normalise (Some ''7''), GetPrograms, GetCode ''7'', Popen 0, Store ''7'' 0,
        Put 0 0 [97, 10], Append 0 ''7'' [97, 10], Put 1 0 [99, 10], Put 0 0 [98, 10]]"
    by (simp add: run_simps)
  have o: "offered 0 (trace (exec ?ls init)) = [[97, 10], [98, 10]]"
    unfolding t by simp
  have a: "appended 0 (trace (exec ?ls init)) = [[97, 10]]"
    unfolding t by simp
  have p: "pending 0 (exec ?ls init) = [[98, 10]]"
    using buffer_follows_channel[of 0 ?ls, THEN conjunct1] o a by simp
  show ?thesis
    using buffer_follows_channel[of 0 ?ls, THEN conjunct2, THEN conjunct1] o a p by simp
qed

section \<open>The event stream\<close>



text \<open>
  C4, as stated, on a generator bound to the queue of a run of \<open>"7"\<close> that prints
  nothing: after four polls of the idle queue it has sent the initial directive and nothing
  else.
\<close>

theorem keepalive_absent:
  "viewer_out (viewers (exec [PostRun (Some ''7'') env_found, GetStream ''7'', ViewerPoll 0,
                              ViewerPoll 0, ViewerPoll 0, ViewerPoll 0] init) ! 0)
     = [ustr ''retry: 200\<newline>\<newline>'']"
  by (simp add: run_simps RETRY_def)

text \<open>
  C4, amended. A generator whose queue is missing or empty sends nothing, however many
  times it polls: the state, and with it what was sent, is unchanged. A generator whose
  queue holds a chunk takes the first one and sends it as one data event. The only
  directive is \<open>"retry: 200\n\n"\<close>, sent once when the subscription starts.
\<close>

theorem idle_poll_silent:
  assumes "j < length (viewers s)"
  shows "(viewer_q (viewers s ! j) = None
          \<or> (\<exists>qa. viewer_q (viewers s ! j) = Some qa \<and> queues s qa = []) \<longrightarrow>
          exec (replicate n (ViewerPoll j)) s = s)
     \<and> (viewer_q (viewers s ! j) = Some qa \<and> queues s qa = line # rest \<longrightarrow>
          viewers (step (ViewerPoll j) s)
            = (viewers s)[j := (viewers s ! j)\<lparr>viewer_out :=
                 viewer_out (viewers s ! j) @ [ustr ''data: '' @ line @ ustr ''\<newline>\<newline>'']\<rparr>]
          \<and> queues (step (ViewerPoll j) s) = (queues s)(qa := rest))
     \<and> viewers (step (GetStream name) s)
         = viewers s @ [\<lparr>viewer_q = (case safe_program_name (Some name) of
                                        None \<Rightarrow> None | Some p \<Rightarrow> output_queues s p),
                          viewer_out = [ustr ''retry: 200\<newline>\<newline>'']\<rparr>]"
proof (intro conjI impI)
  assume "viewer_q (viewers s ! j) = None
          \<or> (\<exists>qa. viewer_q (viewers s ! j) = Some qa \<and> queues s qa = [])"
  then show "exec (replicate n (ViewerPoll j)) s = s"
    using assms by (intro idle_poll)
next
  assume a: "viewer_q (viewers s ! j) = Some qa \<and> queues s qa = line # rest"
  show "viewers (step (ViewerPoll j) s)
            = (viewers s)[j := (viewers s ! j)\<lparr>viewer_out :=
                 viewer_out (viewers s ! j) @ [ustr ''data: '' @ line @ ustr ''\<newline>\<newline>'']\<rparr>]"
    using busy_poll[OF assms, of qa line rest] a by blast
  show "queues (step (ViewerPoll j) s) = (queues s)(qa := rest)"
    using busy_poll[OF assms, of qa line rest] a by blast
next
  show "viewers (step (GetStream name) s)
         = viewers s @ [\<lparr>viewer_q = (case safe_program_name (Some name) of
                                        None \<Rightarrow> None | Some p \<Rightarrow> output_queues s p),
                          viewer_out = [ustr ''retry: 200\<newline>\<newline>'']\<rparr>]"
    by (simp add: stream_program_def Let_def RETRY_def)
qed

text \<open>
  The theorem at five polls of the generator of the run above, and at one poll after the
  run has printed \<open>a\<close>.
\<close>

theorem idle_poll_silent_witness:
  "exec (replicate 5 (ViewerPoll 0)) (exec [PostRun (Some ''7'') env_found, GetStream ''7''] init)
     = exec [PostRun (Some ''7'') env_found, GetStream ''7''] init
   \<and> viewer_out (viewers (exec [PostRun (Some ''7'') env_found, GetStream ''7''] init) ! 0)
     = [ustr ''retry: 200\<newline>\<newline>'']
   \<and> viewer_out (viewers (step (ViewerPoll 0)
         (exec [PostRun (Some ''7'') env_found, GetStream ''7'', PumpRead 0 line_a] init)) ! 0)
     = [ustr ''retry: 200\<newline>\<newline>'', ustr ''data: a\<newline>\<newline>\<newline>'']"
proof -
  let ?s = "exec [PostRun (Some ''7'') env_found, GetStream ''7''] init"
  let ?u = "exec [PostRun (Some ''7'') env_found, GetStream ''7'', PumpRead 0 line_a] init"
  have l: "0 < length (viewers ?s)" by (simp add: run_simps)
  have q: "viewer_q (viewers ?s ! 0) = None
           \<or> (\<exists>qa. viewer_q (viewers ?s ! 0) = Some qa \<and> queues ?s qa = [])"
    by (simp add: run_simps)
  have v: "viewer_out (viewers ?s ! 0) = [ustr ''retry: 200\<newline>\<newline>'']"
    by (simp add: run_simps RETRY_def)
  have a: "exec (replicate 5 (ViewerPoll 0)) ?s = ?s"
    using idle_poll_silent[OF l, of 5, THEN conjunct1] q by blast
  have l': "0 < length (viewers ?u)" by (simp add: run_simps)
  have q': "viewer_q (viewers ?u ! 0) = Some 0 \<and> queues ?u 0 = [97, 10] # []"
    by (simp add: run_simps)
  have v': "viewer_out (viewers ?u ! 0) = [ustr ''retry: 200\<newline>\<newline>'']"
    by (simp add: run_simps RETRY_def)
  have b: "viewers (step (ViewerPoll 0) ?u)
            = (viewers ?u)[0 := (viewers ?u ! 0)\<lparr>viewer_out :=
                 viewer_out (viewers ?u ! 0) @ [ustr ''data: '' @ [97, 10] @ ustr ''\<newline>\<newline>'']\<rparr>]"
    using idle_poll_silent[OF l', THEN conjunct2, THEN conjunct1, of 0 "[97, 10]" "[]"] q'
    by blast
  have c: "viewer_out (viewers (step (ViewerPoll 0) ?u) ! 0)
     = [ustr ''retry: 200\<newline>\<newline>'', ustr ''data: a\<newline>\<newline>\<newline>'']"
    unfolding b using l' v' by (simp add: ustr_def)
  show ?thesis using a v c by (intro conjI)
qed

section \<open>Malformed output\<close>









section \<open>Output of a superseded run\<close>

text \<open>
  C2, on this schedule: \<open>"7"\<close> is run and its stdout pump (pump 0, bound to queue 0)
  captures \<open>"a\n"\<close>; \<open>"7"\<close> is run again, which installs queue 1 and resets
  \<open>last_output["7"]\<close>; then pump 0, still draining, captures \<open>"b\n"\<close>, and the stdout pump
  of the second run (pump 2, bound to queue 1) captures \<open>"c\n"\<close>. The queues are as
  stated, pump 0 writes to queue 0 only. But \<open>last_output["7"]\<close> is looked up by key at
  each append, so the chunk \<open>"b\n"\<close> of the first run is in the snapshot of the second:
  it reads \<open>"b\nc\n"\<close>.
\<close>

theorem superseded_pump_leaks:
  "last_output (exec [PostRun (Some ''7'') env_found, PumpRead 0 line_a, PumpAppend 0,
                      PostRun (Some ''7'') env_found, PumpRead 0 line_b, PumpAppend 0,
                      PumpRead 2 line_c, PumpAppend 2] init) ''7''
     = Some [98, 10, 99, 10]
   \<and> output_queues (exec [PostRun (Some ''7'') env_found, PumpRead 0 line_a, PumpAppend 0,
                      PostRun (Some ''7'') env_found, PumpRead 0 line_b, PumpAppend 0,
                      PumpRead 2 line_c, PumpAppend 2] init) ''7''
     = Some 1
   \<and> queues (exec [PostRun (Some ''7'') env_found, PumpRead 0 line_a, PumpAppend 0,
                      PostRun (Some ''7'') env_found, PumpRead 0 line_b, PumpAppend 0,
                      PumpRead 2 line_c, PumpAppend 2] init) 1
     = [[99, 10]]
   \<and> queues (exec [PostRun (Some ''7'') env_found, PumpRead 0 line_a, PumpAppend 0,
                      PostRun (Some ''7'') env_found, PumpRead 0 line_b, PumpAppend 0,
                      PumpRead 2 line_c, PumpAppend 2] init) 0
     = [[97, 10], [98, 10]]
   \<and> trace (exec [PostRun (Some ''7'') env_found, PumpRead 0 line_a, PumpAppend 0,
                      PostRun (Some ''7'') env_found, PumpRead 0 line_b, PumpAppend 0,
                      PumpRead 2 line_c, PumpAppend 2] init)
     = [Normalise (Some ''7''), GetPrograms, GetCode ''7'', Popen 0, Store ''7'' 0,
        Put 0 0 [97, 10], Append 0 ''7'' [97, 10],
        Normalise (Some ''7''), GetPrograms, Kill 0, GetCode ''7'', Popen 1, Store ''7'' 1,
        Put 0 0 [98, 10], Append 0 ''7'' [98, 10],
        Put 2 1 [99, 10], Append 2 ''7'' [99, 10]]"
  by (simp add: run_simps)

end
